theory Spec2Isabelle
  imports Complex_Main
begin

section \<open>Data model of \<open>work.py\<close>\<close>

text \<open>
  The embedding follows \<open>src/bert_e2e_absa/work.py\<close>: the two frozen dataclasses, the
  function \<open>get_unique_prediction_results\<close> and the body of \<open>predict\<close> from the
  schema lookup (line 183) to the returned \<open>Predict_Result\<close>.  The tensors that the
  model, the tokenizer and the data loader hand to that code are inputs of the embedding.
  Scores are Python floats in the source; only comparisons and maxima are taken of them,
  so they are reals here (a NaN score is outside the embedding).  Every exception that the
  modelled lines can raise is a value of \<open>error\<close>, and a raise is \<open>Inl\<close>.
\<close>

datatype error =
    InvalidTaggingSchema string
  | AssertionError
  | IndexError
  | KeyError int
  | ValueError

type_synonym Predict_Tuple = "string \<times> real"

record Aspect_With_Sentiment =
  aspect :: string
  indices :: "int \<times> int"
  sentiment :: string

record Predict_Result =
  unique_predictions :: "Predict_Tuple list list"
  gold_targets :: "string list list"
  aspects :: "Aspect_With_Sentiment list list"

subsection \<open>List comprehensions whose element expression may raise\<close>

text \<open>The elements are evaluated left to right; the first raise ends the comprehension.\<close>

fun try_map :: "('a \<Rightarrow> error + 'b) \<Rightarrow> 'a list \<Rightarrow> error + 'b list" where
  "try_map f [] = Inr []"
| "try_map f (x # xs) =
     (case f x of
        Inl e \<Rightarrow> Inl e
      | Inr y \<Rightarrow> (case try_map f xs of Inl e \<Rightarrow> Inl e | Inr ys \<Rightarrow> Inr (y # ys)))"

text \<open>\<open>xs[i]\<close> for an index that \<open>enumerate\<close> or an index array produced (never negative).\<close>

definition list_get :: "'a list \<Rightarrow> nat \<Rightarrow> error + 'a" where
  "list_get xs i = (if i < length xs then Inr (xs ! i) else Inl IndexError)"

section \<open>\<open>get_unique_prediction_results\<close> (lines 152 to 165)\<close>

text \<open>
  Line 153, the inner comprehension for sentence \<open>i\<close>:
  \<open>[(words_list[i][j], score) for j, score in sublist]\<close>.
\<close>

definition pair_words ::
  "string list list \<Rightarrow> nat \<times> (nat \<times> real) list \<Rightarrow> error + Predict_Tuple list" where
  "pair_words words_list = (\<lambda>(i, sublist).
     try_map (\<lambda>(j, score).
        case list_get words_list i of
          Inl e \<Rightarrow> Inl e
        | Inr ws \<Rightarrow> (case list_get ws j of Inl e \<Rightarrow> Inl e | Inr w \<Rightarrow> Inr (w, score)))
       sublist)"

definition predictions_result ::
  "string list list \<Rightarrow> (nat \<times> real) list list \<Rightarrow> error + Predict_Tuple list list" where
  "predictions_result words_list target_list =
     try_map (pair_words words_list) (enumerate 0 target_list)"

text \<open>
  Lines 160 to 163, one iteration of the inner loop on the state
  \<open>(seen_words, new_sublist)\<close>: the pair is kept when the word is new or its score is
  strictly greater than the score stored for the word.
\<close>

definition dedup_step ::
  "Predict_Tuple \<Rightarrow> (string \<rightharpoonup> real) \<times> Predict_Tuple list
     \<Rightarrow> (string \<rightharpoonup> real) \<times> Predict_Tuple list" where
  "dedup_step = (\<lambda>(word, score) (seen_words, new_sublist).
     if (case seen_words word of None \<Rightarrow> True | Some s \<Rightarrow> score > s)
     then (seen_words(word \<mapsto> score), new_sublist @ [(word, score)])
     else (seen_words, new_sublist))"

text \<open>Lines 158 to 164 for one sublist: the loop starts from an empty dict and list.\<close>

definition unique_sublist :: "Predict_Tuple list \<Rightarrow> Predict_Tuple list" where
  "unique_sublist sublist = snd (fold dedup_step sublist (Map.empty, []))"

definition get_unique_prediction_results ::
  "string list list \<Rightarrow> (nat \<times> real) list list \<Rightarrow> error + Predict_Tuple list list" where
  "get_unique_prediction_results words_list target_list =
     (case predictions_result words_list target_list of
        Inl e \<Rightarrow> Inl e
      | Inr pr \<Rightarrow> Inr (map unique_sublist pr))"

section \<open>\<open>predict\<close> (lines 168 to 287)\<close>

subsection \<open>Schema lookup, lines 183 to 199\<close>

text \<open>The dict literals keep their insertion order, so they are association lists.\<close>

definition absa_label_vocab :: "string \<Rightarrow> error + (string \<times> int) list" where
  "absa_label_vocab tagging_schema =
     (if tagging_schema = ''BIEOS'' then
        Inr [(''O'', 0), (''EQ'', 1), (''B-POS'', 2), (''I-POS'', 3), (''E-POS'', 4),
             (''S-POS'', 5), (''B-NEG'', 6), (''I-NEG'', 7), (''E-NEG'', 8), (''S-NEG'', 9),
             (''B-NEU'', 10), (''I-NEU'', 11), (''E-NEU'', 12), (''S-NEU'', 13)]
      else if tagging_schema = ''BIO'' then
        Inr [(''O'', 0), (''EQ'', 1), (''B-POS'', 2), (''I-POS'', 3),
             (''B-NEG'', 4), (''I-NEG'', 5), (''B-NEU'', 6), (''I-NEU'', 7)]
      else if tagging_schema = ''OT'' then
        Inr [(''O'', 0), (''EQ'', 1), (''T-POS'', 2), (''T-NEG'', 3), (''T-NEU'', 4)]
      else Inl (InvalidTaggingSchema tagging_schema))"

text \<open>
  Lines 195 to 199: for every key of the vocabulary, in order,
  \<open>absa_id2tag[absa_label_vocab[key]] = key\<close>.
\<close>

definition absa_id2tag :: "(string \<times> int) list \<Rightarrow> (int \<rightharpoonup> string)" where
  "absa_id2tag vocab =
     fold (\<lambda>(key, _) id2tag.
        case map_of vocab key of None \<Rightarrow> id2tag | Some v \<Rightarrow> id2tag(v \<mapsto> key))
       vocab Map.empty"

subsection \<open>What the loop body receives\<close>

text \<open>
  \<open>ot2bieos_ts\<close>, \<open>bio2ot_ts\<close> and \<open>tag2ts\<close> are imported from
  \<open>bert_e2e_absa.seq_utils\<close>, which is not part of \<open>work.py\<close>; they are parameters of
  the embedding, and every theorem below holds for whatever functions they are.
\<close>

record seq_utils =
  ot2bieos_ts :: "string list \<Rightarrow> string list"
  bio2ot_ts :: "string list \<Rightarrow> string list"
  tag2ts :: "string list \<Rightarrow> (int \<times> int \<times> string) list"

text \<open>
  One iteration of the loop of line 201 (the data loader has batch size 1) works on:
  \<^item> \<open>words\<close>: \<open>total_words[idx]\<close>;
  \<^item> \<open>label_indices\<close>: \<open>evaluate_label_ids[idx]\<close>;
  \<^item> \<open>preds\<close>: the predicted label ids, one row per sentence of the batch (lines 219, 222);
  \<^item> \<open>probs\<close>: the score matrices of the batch, one matrix per sentence with one row per
    position and one column per label class; the empty list when the tagger is a CRF
    (line 202 is never overwritten then);
  \<^item> \<open>labels\<close>: \<open>inputs['labels']\<close> as nested lists, \<open>None\<close> when it is \<open>None\<close>.  Line 211
    sets it to \<open>batch[3]\<close>, a tensor of the dataset of line 103, so the batches that
    \<open>predict\<close> processes have \<open>Some\<close> label rows in every sentence; \<open>None\<close> is there for
    the guard of line 264.
\<close>

record sentence =
  words :: "string list"
  label_indices :: "nat list"
  preds :: "int list list"
  probs :: "real list list list"
  labels :: "int list list option"

text \<open>\<open>xs[0]\<close> on the batch dimension.\<close>

definition first_row :: "'a list \<Rightarrow> error + 'a" where
  "first_row xs = (case xs of [] \<Rightarrow> Inl IndexError | x # _ \<Rightarrow> Inr x)"

text \<open>Line 226, \<open>preds[0][label_indices]\<close>: one element per index, in the order of the indices.\<close>

definition pred_labels_of :: "sentence \<Rightarrow> error + int list" where
  "pred_labels_of s =
     (case first_row (preds s) of
        Inl e \<Rightarrow> Inl e
      | Inr row \<Rightarrow> try_map (list_get row) (label_indices s))"

subsection \<open>Candidate scores, lines 230 to 234\<close>

text \<open>\<open>np.max\<close> of one row; numpy raises \<open>ValueError\<close> on a reduction over no element.\<close>

definition np_max :: "real list \<Rightarrow> error + real" where
  "np_max row = (case row of [] \<Rightarrow> Inl ValueError | x # xs \<Rightarrow> Inr (fold max xs x))"

text \<open>
  Line 230, \<open>np.max(np.array(probs[0])[1:len(words), 2:], axis=1)\<close>.  The slice
  \<open>1:len(words)\<close> is \<open>take (len - 1) \<circ> drop 1\<close> and is cut at the end of the matrix, as
  numpy slices are; \<open>2:\<close> drops the first two columns.  The matrix is a numpy array, so its
  rows have one length; when that length is at most 2 the reduction has no element and
  numpy raises, whatever the row slice holds.
\<close>

definition max_values :: "string list \<Rightarrow> real list list list \<Rightarrow> error + real list" where
  "max_values ws ps =
     (case first_row ps of
        Inl e \<Rightarrow> Inl e
      | Inr m \<Rightarrow>
          if list_ex (\<lambda>row. length row \<le> 2) m then Inl ValueError
          else try_map np_max (map (drop 2) (take (length ws - 1) (drop 1 m))))"

text \<open>Line 232.\<close>

definition tuple_list :: "real list \<Rightarrow> (nat \<times> real) list" where
  "tuple_list mv = enumerate 0 mv"

text \<open>
  Line 234, \<open>sorted(tuple_list, key=lambda x: x[1], reverse=True)\<close>: Python's sort is
  stable, also with \<open>reverse=True\<close>, so pairs of equal score keep their order.  The stable
  insertion sort of the library on the negated score is that order.
\<close>

definition sorted_reverse :: "(nat \<times> real) list \<Rightarrow> (nat \<times> real) list" where
  "sorted_reverse ts = sort_key (\<lambda>x. - snd x) ts"

subsection \<open>Aspects, lines 253 to 256\<close>

text \<open>\<open>xs[lo:hi]\<close> with Python's treatment of negative and too large bounds.\<close>

definition py_slice :: "'a list \<Rightarrow> int \<Rightarrow> int \<Rightarrow> 'a list" where
  "py_slice xs lo hi =
     (let n = int (length xs);
          l = (if lo < 0 then max 0 (lo + n) else min lo n);
          h = (if hi < 0 then max 0 (hi + n) else min hi n)
      in take (nat (h - l)) (drop (nat l) xs))"

text \<open>Lines 254 to 256 for one span; \<open>aspect[0]\<close> raises on an empty slice.\<close>

definition make_aspect ::
  "string list \<Rightarrow> int \<times> int \<times> string \<Rightarrow> error + Aspect_With_Sentiment" where
  "make_aspect ws = (\<lambda>(beg, en, sent).
     case py_slice ws beg (en + 1) of
       [] \<Rightarrow> Inl IndexError
     | a # _ \<Rightarrow> Inr \<lparr>aspect = a, indices = (beg, en), sentiment = sent\<rparr>)"

subsection \<open>Gold words, lines 262 to 270\<close>

text \<open>One iteration of the loop of line 268 on the list \<open>gold_labels_per_seq\<close>.\<close>

definition gold_step :: "string list \<Rightarrow> nat \<times> int \<Rightarrow> string list \<Rightarrow> string list" where
  "gold_step ws = (\<lambda>(i, a) gold_labels_per_seq.
     if a > 1 \<and> 0 < i \<and> i < length ws then gold_labels_per_seq @ [ws ! (i - 1)]
     else gold_labels_per_seq)"

definition gold_labels_per_seq :: "string list \<Rightarrow> int list \<Rightarrow> string list" where
  "gold_labels_per_seq ws row = fold (gold_step ws) (enumerate 0 row) []"

text \<open>
  Lines 262 to 277: \<open>None\<close> when \<open>inputs['labels']\<close> is \<open>None\<close> (nothing is appended to
  \<open>gold_target_list\<close> then), otherwise the gold words of \<open>labels.tolist()[0]\<close>.  The
  array \<open>gold_labels\<close> of lines 272 to 275 is never read again and is left out, as are the
  \<open>print\<close> calls.
\<close>

definition gold_of :: "sentence \<Rightarrow> error + string list option" where
  "gold_of s =
     (case labels s of
        None \<Rightarrow> Inr None
      | Some ls \<Rightarrow>
          (case first_row ls of
             Inl e \<Rightarrow> Inl e
           | Inr row \<Rightarrow> Inr (Some (gold_labels_per_seq (words s) row))))"

subsection \<open>The loop body and the loop\<close>

text \<open>Lines 241 to 247.\<close>

definition to_bieos :: "seq_utils \<Rightarrow> string \<Rightarrow> string list \<Rightarrow> string list" where
  "to_bieos U tagging_schema pred_tags =
     (if tagging_schema = ''OT'' then ot2bieos_ts U pred_tags
      else if tagging_schema = ''BIO'' then ot2bieos_ts U (bio2ot_ts U pred_tags)
      else pred_tags)"

text \<open>Line 239, \<open>absa_id2tag[label]\<close>.\<close>

definition tag_of :: "(int \<rightharpoonup> string) \<Rightarrow> int \<Rightarrow> error + string" where
  "tag_of id2tag label = (case id2tag label of None \<Rightarrow> Inl (KeyError label) | Some t \<Rightarrow> Inr t)"

text \<open>
  What one iteration appends: \<open>result\<close> to \<open>target_list\<close>, \<open>words\<close> to \<open>words_list\<close>,
  \<open>sentiments_temp\<close> to \<open>sentiment_output\<close> and, when there are labels, the gold words to
  \<open>gold_target_list\<close>.
\<close>

record sentence_out =
  result :: "(nat \<times> real) list"
  out_words :: "string list"
  sentiments_temp :: "Aspect_With_Sentiment list"
  gold :: "string list option"

text \<open>Lines 224 to 277, in the order in which the source evaluates them.\<close>

definition process_sentence ::
  "seq_utils \<Rightarrow> string \<Rightarrow> (int \<rightharpoonup> string) \<Rightarrow> sentence \<Rightarrow> error + sentence_out" where
  "process_sentence U tagging_schema id2tag s =
     (case pred_labels_of s of
        Inl e \<Rightarrow> Inl e
      | Inr pred_labels \<Rightarrow>
          if length (words s) \<noteq> length pred_labels then Inl AssertionError
          else
            (case max_values (words s) (probs s) of
               Inl e \<Rightarrow> Inl e
             | Inr mv \<Rightarrow>
                 (case try_map (tag_of id2tag) pred_labels of
                    Inl e \<Rightarrow> Inl e
                  | Inr pred_tags \<Rightarrow>
                      (case try_map (make_aspect (words s))
                              (tag2ts U (to_bieos U tagging_schema pred_tags)) of
                         Inl e \<Rightarrow> Inl e
                       | Inr asp \<Rightarrow>
                           (case gold_of s of
                              Inl e \<Rightarrow> Inl e
                            | Inr g \<Rightarrow>
                                Inr \<lparr>result = sorted_reverse (tuple_list mv),
                                     out_words = words s,
                                     sentiments_temp = asp,
                                     gold = g\<rparr>)))))"

text \<open>The four lists that the loop of line 201 grows.\<close>

record loop_state =
  target_list :: "(nat \<times> real) list list"
  words_list :: "string list list"
  gold_target_list :: "string list list"
  sentiment_output :: "Aspect_With_Sentiment list list"

definition append_out :: "loop_state \<Rightarrow> sentence_out \<Rightarrow> loop_state" where
  "append_out st out =
     \<lparr>target_list = target_list st @ [result out],
      words_list = words_list st @ [out_words out],
      gold_target_list =
        (case gold out of None \<Rightarrow> gold_target_list st | Some g \<Rightarrow> gold_target_list st @ [g]),
      sentiment_output = sentiment_output st @ [sentiments_temp out]\<rparr>"

text \<open>The loop of line 201: an exception of one iteration leaves \<open>predict\<close>.\<close>

fun predict_loop ::
  "seq_utils \<Rightarrow> string \<Rightarrow> (int \<rightharpoonup> string) \<Rightarrow> loop_state \<Rightarrow> sentence list
     \<Rightarrow> error + loop_state" where
  "predict_loop U tagging_schema id2tag st [] = Inr st"
| "predict_loop U tagging_schema id2tag st (s # ss) =
     (case process_sentence U tagging_schema id2tag s of
        Inl e \<Rightarrow> Inl e
      | Inr out \<Rightarrow> predict_loop U tagging_schema id2tag (append_out st out) ss)"

definition init_state :: loop_state where
  "init_state = \<lparr>target_list = [], words_list = [], gold_target_list = [],
                 sentiment_output = []\<rparr>"

text \<open>Lines 175 to 287: the schema lookup, the loop, the deduplication, the result.\<close>

definition predict :: "seq_utils \<Rightarrow> string \<Rightarrow> sentence list \<Rightarrow> error + Predict_Result" where
  "predict U tagging_schema batch =
     (case absa_label_vocab tagging_schema of
        Inl e \<Rightarrow> Inl e
      | Inr vocab \<Rightarrow>
          (case predict_loop U tagging_schema (absa_id2tag vocab) init_state batch of
             Inl e \<Rightarrow> Inl e
           | Inr st \<Rightarrow>
               (case get_unique_prediction_results (words_list st) (target_list st) of
                  Inl e \<Rightarrow> Inl e
                | Inr u \<Rightarrow>
                    Inr \<lparr>unique_predictions = u,
                         gold_targets = gold_target_list st,
                         aspects = sentiment_output st\<rparr>)))"

section \<open>Auxiliary definitions for the proofs\<close>

text \<open>
  The inner loop of lines 160 to 163 as a recursion on the rest of the sublist, with the
  dict \<open>seen_words\<close> as its state; \<open>fold_dedup_step\<close> below relates it to the loop.
\<close>

fun dedup_from :: "(string \<rightharpoonup> real) \<Rightarrow> Predict_Tuple list \<Rightarrow> Predict_Tuple list" where
  "dedup_from seen [] = []"
| "dedup_from seen ((w, s) # xs) =
     (if (case seen w of None \<Rightarrow> True | Some s' \<Rightarrow> s > s')
      then (w, s) # dedup_from (seen(w \<mapsto> s)) xs
      else dedup_from seen xs)"

text \<open>
  Concrete inputs at which the embedding is evaluated below.  \<open>example_utils\<close> stands in
  for the three imported functions; \<open>example_sentence\<close> is a sentence of four words whose
  score matrix has six rows (positions) and four columns (label classes).
\<close>

definition example_utils :: seq_utils where
  "example_utils =
     \<lparr>ot2bieos_ts = (\<lambda>ts. ts), bio2ot_ts = (\<lambda>ts. ts), tag2ts = (\<lambda>_. [(0, 1, ''POS'')])\<rparr>"

definition example_sentence :: sentence where
  "example_sentence =
     \<lparr>words = [''good'', ''food'', ''good'', ''here''],
      label_indices = [1, 2, 3, 4],
      preds = [[0, 2, 4, 0, 0, 0]],
      probs = [[[0, 0, 1, 2], [0, 0, 9 / 10, 2 / 10], [9, 9, 4 / 10, 1 / 10],
                [0, 0, 7 / 10, 7 / 10], [0, 0, 5 / 10, 6 / 10], [0, 0, 1 / 10, 1 / 10]]],
      labels = Some [[0, 0, 5, 0]]\<rparr>"

text \<open>
  The invariant of the loop on a sublist sorted by score descending: every stored score
  is at least every score still to come.
\<close>

definition seen_bounds :: "(string \<rightharpoonup> real) \<Rightarrow> Predict_Tuple list \<Rightarrow> bool" where
  "seen_bounds seen xs = (\<forall>w s. seen w = Some s \<longrightarrow> (\<forall>x \<in> set xs. snd x \<le> s))"

text \<open>The definitions that evaluate the embedding at a concrete input.\<close>

lemmas embedding_defs =
  predict_def absa_label_vocab_def absa_id2tag_def process_sentence_def pred_labels_of_def
  first_row_def list_get_def max_values_def np_max_def tuple_list_def sorted_reverse_def
  tag_of_def to_bieos_def make_aspect_def py_slice_def gold_of_def gold_labels_per_seq_def
  gold_step_def append_out_def init_state_def get_unique_prediction_results_def
  predictions_result_def pair_words_def unique_sublist_def dedup_step_def enumerate_eq_zip
  example_utils_def example_sentence_def

section \<open>Comprehensions that may raise\<close>

lemma try_map_Inr_iff: "try_map f xs = Inr ys \<longleftrightarrow> map f xs = map Inr ys"
proof (induction xs arbitrary: ys)
  case Nil
  then show ?case by auto
next
  case (Cons x xs)
  show ?case
  proof (cases "f x")
    case (Inl e)
    then show ?thesis by (auto simp: map_eq_Cons_conv)
  next
    case (Inr y)
    show ?thesis
    proof (cases "try_map f xs")
      case (Inl e)
      then have "\<And>zs. map f xs \<noteq> map Inr zs" using Cons.IH by auto
      with Inl Inr show ?thesis by (auto simp: Cons_eq_map_conv)
    next
      case r: (Inr zs)
      then have "map f xs = map Inr zs" using Cons.IH by simp
      with r Inr show ?thesis by (auto simp: Cons_eq_map_conv)
    qed
  qed
qed

lemma try_map_Inr_length: "try_map f xs = Inr ys \<Longrightarrow> length ys = length xs"
  by (metis try_map_Inr_iff length_map)

lemma try_map_Inr_nth: "try_map f xs = Inr ys \<Longrightarrow> i < length xs \<Longrightarrow> f (xs ! i) = Inr (ys ! i)"
  by (metis try_map_Inr_iff length_map nth_map)

lemma try_map_Inl_iff: "(\<exists>e. try_map f xs = Inl e) \<longleftrightarrow> (\<exists>x\<in>set xs. \<exists>e. f x = Inl e)"
  by (induction xs) (auto split: sum.splits)

lemma try_map_all_Inr: "(\<And>x. x \<in> set xs \<Longrightarrow> f x = Inr (g x)) \<Longrightarrow> try_map f xs = Inr (map g xs)"
  by (induction xs) auto

section \<open>The deduplication pass\<close>

lemma fold_dedup_step:
  "snd (fold dedup_step xs (seen, acc)) = acc @ dedup_from seen xs"
  by (induction xs arbitrary: seen acc) (auto simp: dedup_step_def split: option.splits)

lemma unique_sublist_eq: "unique_sublist xs = dedup_from Map.empty xs"
  by (simp add: unique_sublist_def fold_dedup_step)

lemma dedup_from_idem_gen:
  "(\<And>w s2. seen2 w = Some s2 \<Longrightarrow> \<exists>s1. seen1 w = Some s1 \<and> s2 \<le> s1) \<Longrightarrow>
   dedup_from seen2 (dedup_from seen1 xs) = dedup_from seen1 xs"
proof (induction xs arbitrary: seen1 seen2)
  case Nil
  then show ?case by simp
next
  case (Cons x xs)
  obtain w s where x: "x = (w, s)" by (cases x)
  show ?case
  proof (cases "case seen1 w of None \<Rightarrow> True | Some s' \<Rightarrow> s > s'")
    case True
    have keep2: "case seen2 w of None \<Rightarrow> True | Some s' \<Rightarrow> s > s'"
    proof (cases "seen2 w")
      case None then show ?thesis by simp
    next
      case (Some s2)
      then obtain s1 where "seen1 w = Some s1" "s2 \<le> s1" using Cons.prems by blast
      with True Some show ?thesis by simp
    qed
    have "dedup_from (seen2(w \<mapsto> s)) (dedup_from (seen1(w \<mapsto> s)) xs)
            = dedup_from (seen1(w \<mapsto> s)) xs"
      by (rule Cons.IH) (use Cons.prems in \<open>auto split: if_splits\<close>)
    with True keep2 show ?thesis by (simp add: x)
  next
    case False
    have "dedup_from seen2 (dedup_from seen1 xs) = dedup_from seen1 xs"
      by (rule Cons.IH) (use Cons.prems in blast)
    with False show ?thesis by (simp add: x)
  qed
qed


text \<open>
  Claim C9.  The candidate ranker is a function of its arguments: it reads no other state,
  so equal inputs give equal outputs.  Its deduplication pass (lines 157 to 164) is
  idempotent: applied to any list it has produced, and so to every sublist of an output of
  \<open>get_unique_prediction_results\<close>, it returns that list unchanged.
\<close>

theorem dedup_deterministic_idempotent:
  "(wl = wl' \<and> tgt = tgt' \<longrightarrow>
      get_unique_prediction_results wl tgt =
      get_unique_prediction_results wl' tgt') \<and>
   unique_sublist (unique_sublist sublist) = unique_sublist sublist \<and>
   (get_unique_prediction_results wl tgt = Inr r \<longrightarrow>
      map unique_sublist r = r)"
proof -
  have idem: "unique_sublist (unique_sublist xs) = unique_sublist xs" for xs
    unfolding unique_sublist_eq by (rule dedup_from_idem_gen) simp
  have "map unique_sublist r = r"
    if "get_unique_prediction_results wl tgt = Inr r"
  proof -
    from that obtain pr where "r = map unique_sublist pr"
      by (auto simp: get_unique_prediction_results_def split: sum.splits)
    then show ?thesis by (simp add: idem)
  qed
  with idem show ?thesis by blast
qed

theorem dedup_deterministic_idempotent_witness:
  "get_unique_prediction_results [[''good'', ''food'', ''good'']]
     [[(0, 9 / 10), (2, 7 / 10), (1, 4 / 10)]] = Inr [[(''good'', 9 / 10), (''food'', 4 / 10)]] \<and>
   map unique_sublist [[(''good'', 9 / 10), (''food'', 4 / 10)]] =
     [[(''good'', 9 / 10), (''food'', 4 / 10)]]"
proof -
  have e: "get_unique_prediction_results [[''good'', ''food'', ''good'']]
     [[(0, 9 / 10), (2, 7 / 10), (1, 4 / 10)]] = Inr [[(''good'', 9 / 10), (''food'', 4 / 10)]]"
    by (simp add: get_unique_prediction_results_def predictions_result_def pair_words_def
        list_get_def unique_sublist_def dedup_step_def enumerate_eq_zip)
  from dedup_deterministic_idempotent
    [of "[[''good'', ''food'', ''good'']]" "[[''good'', ''food'', ''good'']]"
        "[[(0, 9 / 10), (2, 7 / 10), (1, 4 / 10)]]" "[[(0, 9 / 10), (2, 7 / 10), (1, 4 / 10)]]"
        "[]" "[[(''good'', 9 / 10), (''food'', 4 / 10)]]"] e
  show ?thesis by blast
qed

text \<open>
  Claim C10.  The pass yields one entry per word only on a sublist sorted by score
  descending.  The sublist \<open>[(0, 0.4), (0, 0.9)]\<close> for the one word \<open>good\<close> is not sorted
  descending, and both of its entries are kept: the second score is strictly greater than
  the stored one (line 161).
\<close>

theorem dedup_unsorted_keeps_duplicate:
  "get_unique_prediction_results [[''good'']] [[(0, 4 / 10), (0, 9 / 10)]] =
     Inr [[(''good'', 4 / 10), (''good'', 9 / 10)]] \<and>
   \<not> sorted_wrt (\<ge>) (map snd [(0 :: nat, 4 / 10 :: real), (0, 9 / 10)]) \<and>
   \<not> distinct (map fst [(''good'', 4 / 10 :: real), (''good'', 9 / 10)])"
  by (simp add: get_unique_prediction_results_def predictions_result_def pair_words_def
      list_get_def unique_sublist_def dedup_step_def enumerate_eq_zip sorted_wrt2_simps
      del: sorted_wrt.simps)

section \<open>The gold aligner\<close>

lemma fold_gold_step:
  "fold (gold_step ws) xs acc =
     acc @ map (\<lambda>(i, a). ws ! (i - 1)) (filter (\<lambda>(i, a). a > 1 \<and> 0 < i \<and> i < length ws) xs)"
proof (induction xs arbitrary: acc)
  case Nil
  show ?case by simp
next
  case (Cons x xs)
  obtain i a where x: "x = (i, a)" by (cases x)
  show ?case
  proof (cases "a > 1 \<and> 0 < i \<and> i < length ws")
    case True
    then have "gold_step ws x acc = acc @ [ws ! (i - 1)]" by (simp add: gold_step_def x)
    with True show ?thesis by (simp add: Cons.IH x)
  next
    case False
    then have "gold_step ws x acc = acc" by (simp add: gold_step_def x)
    with False show ?thesis by (simp add: Cons.IH x)
  qed
qed

lemma enumerate_as_map: "enumerate 0 row = map (\<lambda>i. (i, row ! i)) [0..<length row]"
  by (rule nth_equalityI) (simp_all add: nth_enumerate_eq)

text \<open>
  Claim C2.  The loop of lines 268 to 270 appends \<open>words[i - 1]\<close> exactly for the positions
  \<open>i\<close> of the gold row with \<open>1 \<le> i < len(words)\<close> whose label id is greater than 1, in
  increasing order of \<open>i\<close>; for the gold ids \<open>[0, 0, 5, 0]\<close> and the tokens
  \<open>a b c d\<close> the gold words are \<open>[b]\<close>.
\<close>

theorem gold_aligner_rule:
  "gold_labels_per_seq ws row =
     map (\<lambda>i. ws ! (i - 1)) (filter (\<lambda>i. 1 \<le> i \<and> i < length ws \<and> row ! i > 1) [0..<length row]) \<and>
   gold_labels_per_seq [''a'', ''b'', ''c'', ''d''] [0, 0, 5, 0] = [''b'']"
proof
  have "filter (\<lambda>(i, a). a > 1 \<and> 0 < i \<and> i < length ws) (enumerate 0 row) =
        map (\<lambda>i. (i, row ! i)) (filter (\<lambda>i. 1 \<le> i \<and> i < length ws \<and> row ! i > 1) [0..<length row])"
    unfolding enumerate_as_map filter_map by (rule arg_cong[where f="map _"], rule filter_cong) auto
  then show "gold_labels_per_seq ws row =
     map (\<lambda>i. ws ! (i - 1)) (filter (\<lambda>i. 1 \<le> i \<and> i < length ws \<and> row ! i > 1) [0..<length row])"
    by (simp add: gold_labels_per_seq_def fold_gold_step o_def)
  show "gold_labels_per_seq [''a'', ''b'', ''c'', ''d''] [0, 0, 5, 0] = [''b'']"
    by (simp add: gold_labels_per_seq_def gold_step_def enumerate_eq_zip)
qed

section \<open>Aspect assembly\<close>

lemma py_slice_span:
  assumes "0 \<le> beg" "beg \<le> en" "en < int (length ws)"
  shows "py_slice ws beg (en + 1) = ws ! nat beg # take (nat (en - beg)) (drop (Suc (nat beg)) ws)"
proof -
  have b: "nat beg < length ws" using assms by linarith
  have "nat (en + 1 - beg) = Suc (nat (en - beg))" using assms by linarith
  moreover have "drop (nat beg) ws = ws ! nat beg # drop (Suc (nat beg)) ws"
    using b by (simp add: Cons_nth_drop_Suc)
  ultimately show ?thesis using assms by (simp add: py_slice_def Let_def min_def)
qed

lemma make_aspect_span:
  "0 \<le> beg \<Longrightarrow> beg \<le> en \<Longrightarrow> en < int (length ws) \<Longrightarrow>
   make_aspect ws (beg, en, pol) = Inr \<lparr>aspect = ws ! nat beg, indices = (beg, en), sentiment = pol\<rparr>"
  by (simp add: make_aspect_def py_slice_span)

text \<open>
  Claim C8.  For spans \<open>(beg, end, polarity)\<close> with \<open>0 \<le> beg \<le> end < len(words)\<close>, lines
  254 to 256 raise nothing: the slice \<open>words[beg:end+1]\<close> is not empty, its first element
  is \<open>words[beg]\<close> (an index inside the list), and the assembled value carries that token,
  the pair \<open>(beg, end)\<close> and the polarity of the span.
\<close>

theorem aspect_assembly_in_bounds:
  assumes "\<forall>(beg, en, pol) \<in> set spans. 0 \<le> beg \<and> beg \<le> en \<and> en < int (length ws)"
  shows "try_map (make_aspect ws) spans =
           Inr (map (\<lambda>(beg, en, pol). \<lparr>aspect = ws ! nat beg, indices = (beg, en), sentiment = pol\<rparr>) spans) \<and>
         (\<forall>(beg, en, pol) \<in> set spans. nat beg < length ws \<and>
            make_aspect ws (beg, en, pol) = Inr \<lparr>aspect = ws ! nat beg, indices = (beg, en), sentiment = pol\<rparr>)"
proof
  show "try_map (make_aspect ws) spans =
           Inr (map (\<lambda>(beg, en, pol). \<lparr>aspect = ws ! nat beg, indices = (beg, en), sentiment = pol\<rparr>) spans)"
    by (rule try_map_all_Inr) (use assms in \<open>auto simp: make_aspect_span\<close>)
  show "\<forall>(beg, en, pol) \<in> set spans. nat beg < length ws \<and>
            make_aspect ws (beg, en, pol) = Inr \<lparr>aspect = ws ! nat beg, indices = (beg, en), sentiment = pol\<rparr>"
    using assms by (auto simp: make_aspect_span)
qed

theorem aspect_assembly_in_bounds_witness:
  "try_map (make_aspect [''the'', ''battery'', ''life'', ''rocks'']) [(1, 2, ''POS''), (3, 3, ''NEG'')] =
     Inr [\<lparr>aspect = ''battery'', indices = (1, 2), sentiment = ''POS''\<rparr>,
          \<lparr>aspect = ''rocks'', indices = (3, 3), sentiment = ''NEG''\<rparr>]"
  using aspect_assembly_in_bounds [of "[(1, 2, ''POS''), (3, 3, ''NEG'')]" "[''the'', ''battery'', ''life'', ''rocks'']"]
  by simp

section \<open>Schema lookup\<close>

text \<open>
  Claim C5.  The lookup of lines 183 to 193 raises exactly for the names other than
  \<open>OT\<close>, \<open>BIO\<close> and \<open>BIEOS\<close>, and \<open>predict\<close> then ends with that exception whatever the
  batch is: no sentence is processed before it.  (The source raises a plain \<open>Exception\<close>
  with the message \<open>Invalid tagging schema\<close>; \<open>InvalidTaggingSchema\<close> stands for it.)
\<close>

theorem schema_lookup_error:
  "((\<exists>e. absa_label_vocab n = Inl e) \<longleftrightarrow> n \<notin> {''OT'', ''BIO'', ''BIEOS''}) \<and>
   (n \<notin> {''OT'', ''BIO'', ''BIEOS''} \<longrightarrow>
      absa_label_vocab n = Inl (InvalidTaggingSchema n) \<and>
      predict U n batch = Inl (InvalidTaggingSchema n))"
  by (auto simp: absa_label_vocab_def predict_def)

theorem schema_lookup_error_witness:
  "''IOB'' \<notin> {''OT'', ''BIO'', ''BIEOS''} \<and>
   predict example_utils ''IOB'' [example_sentence] = Inl (InvalidTaggingSchema ''IOB'') \<and>
   (\<exists>e. absa_label_vocab ''IOB'' = Inl e)"
  using schema_lookup_error [of "''IOB''" example_utils "[example_sentence]"]
  by simp

section \<open>The tag vocabularies\<close>







section \<open>The deduplication pass on a sorted sublist\<close>

lemma set_dedup_from: "set (dedup_from seen xs) \<subseteq> set xs"
proof (induction xs arbitrary: seen)
  case Nil
  show ?case by simp
next
  case (Cons x xs)
  obtain w s where x: "x = (w, s)" by (cases x)
  have "set (dedup_from (seen(w \<mapsto> s)) xs) \<subseteq> set xs" by (rule Cons.IH)
  moreover have "set (dedup_from seen xs) \<subseteq> set xs" by (rule Cons.IH)
  ultimately show ?case by (simp add: x) blast
qed

lemma sorted_dedup_from:
  "sorted_wrt P xs \<Longrightarrow> sorted_wrt P (dedup_from seen xs)"
proof (induction xs arbitrary: seen)
  case Nil
  show ?case by simp
next
  case (Cons x xs)
  obtain w s where x: "x = (w, s)" by (cases x)
  from Cons.prems have hd: "\<forall>y \<in> set xs. P x y" and tl: "sorted_wrt P xs" by simp_all
  have "\<forall>y \<in> set (dedup_from (seen(w \<mapsto> s)) xs). P x y"
    using hd set_dedup_from by blast
  with Cons.IH [OF tl] show ?case by (simp add: x)
qed

lemma seen_bounds_step:
  assumes "sorted_wrt (\<lambda>a b. snd b \<le> snd a) ((w, s) # xs)" "seen_bounds seen ((w, s) # xs)"
  shows "seen_bounds (seen(w \<mapsto> s)) xs" "seen_bounds seen xs"
  using assms by (auto simp: seen_bounds_def)

lemma dedup_from_sorted_step:
  assumes "seen_bounds seen ((w, s) # xs)"
  shows "dedup_from seen ((w, s) # xs) =
           (if seen w = None then (w, s) # dedup_from (seen(w \<mapsto> s)) xs else dedup_from seen xs)"
proof (cases "seen w")
  case None
  then show ?thesis by simp
next
  case (Some s1)
  with assms have "s \<le> s1" by (auto simp: seen_bounds_def)
  with Some show ?thesis by simp
qed

lemma dedup_from_sorted_keys:
  assumes "sorted_wrt (\<lambda>a b. snd b \<le> snd a) xs" "seen_bounds seen xs"
  shows "distinct (map fst (dedup_from seen xs)) \<and>
         fst ` set (dedup_from seen xs) = fst ` set xs - dom seen"
  using assms
proof (induction xs arbitrary: seen)
  case Nil
  show ?case by simp
next
  case (Cons x xs)
  obtain w s where x: "x = (w, s)" by (cases x)
  from Cons.prems have srt: "sorted_wrt (\<lambda>a b. snd b \<le> snd a) xs" by simp
  note sb = seen_bounds_step [OF Cons.prems [unfolded x]]
  note st = dedup_from_sorted_step [OF Cons.prems(2) [unfolded x]]
  show ?case
  proof (cases "seen w")
    case None
    define T where "T = dedup_from (seen(w \<mapsto> s)) xs"
    have dm: "dom (seen(w \<mapsto> s)) = insert w (dom seen)" by simp
    have ih: "distinct (map fst T)" "fst ` set T = fst ` set xs - insert w (dom seen)"
      using Cons.IH [OF srt sb(1)] unfolding T_def dm by blast+
    have nd: "w \<notin> dom seen" using None by (simp add: dom_def)
    have eq: "dedup_from seen ((w, s) # xs) = (w, s) # T"
      unfolding st T_def using None by simp
    have "w \<notin> fst ` set T" using ih(2) by blast
    moreover have "fst ` set ((w, s) # T) = fst ` set ((w, s) # xs) - dom seen"
      using ih(2) nd by auto
    ultimately show ?thesis unfolding x eq using ih(1) by simp
  next
    case (Some s1)
    define T where "T = dedup_from seen xs"
    have ih: "distinct (map fst T)" "fst ` set T = fst ` set xs - dom seen"
      using Cons.IH [OF srt sb(2)] unfolding T_def by blast+
    have d: "w \<in> dom seen" using Some by (simp add: dom_def)
    have eq: "dedup_from seen ((w, s) # xs) = T"
      unfolding st T_def using Some by simp
    have "fst ` set T = fst ` set ((w, s) # xs) - dom seen"
      using ih(2) d by auto
    then show ?thesis unfolding x eq using ih(1) by simp
  qed
qed

lemma dedup_from_sorted_max:
  assumes "sorted_wrt (\<lambda>a b. snd b \<le> snd a) xs" "seen_bounds seen xs"
    and "(w, s) \<in> set (dedup_from seen xs)" "(w, s') \<in> set xs"
  shows "s' \<le> s"
  using assms
proof (induction xs arbitrary: seen)
  case Nil
  then show ?case by simp
next
  case (Cons x xs)
  obtain w0 s0 where x: "x = (w0, s0)" by (cases x)
  from Cons.prems(1) have srt: "sorted_wrt (\<lambda>a b. snd b \<le> snd a) xs"
    and top: "\<forall>y \<in> set xs. snd y \<le> s0" by (simp_all add: x)
  note sb = seen_bounds_step [OF Cons.prems(1,2) [unfolded x]]
  note st = dedup_from_sorted_step [OF Cons.prems(2) [unfolded x]]
  show ?case
  proof (cases "seen w0")
    case None
    with Cons.prems(3) have mem: "(w, s) = (w0, s0) \<or> (w, s) \<in> set (dedup_from (seen(w0 \<mapsto> s0)) xs)"
      unfolding x st by simp
    show ?thesis
    proof (cases "(w, s) = (w0, s0)")
      case True
      with Cons.prems(4) top show ?thesis by (auto simp: x)
    next
      case False
      with mem have in_tl: "(w, s) \<in> set (dedup_from (seen(w0 \<mapsto> s0)) xs)" by blast
      then have "w \<in> fst ` set (dedup_from (seen(w0 \<mapsto> s0)) xs)" by force
      moreover have "dom (seen(w0 \<mapsto> s0)) = insert w0 (dom seen)" by simp
      ultimately have "w \<noteq> w0" using dedup_from_sorted_keys [OF srt sb(1)] by blast
      with Cons.prems(4) have "(w, s') \<in> set xs" by (simp add: x)
      from Cons.IH [OF srt sb(1) in_tl this] show ?thesis .
    qed
  next
    case (Some s1)
    with Cons.prems(3) have in_tl: "(w, s) \<in> set (dedup_from seen xs)"
      unfolding x st by simp
    then have "w \<in> fst ` set (dedup_from seen xs)" by force
    moreover have "w0 \<in> dom seen" using Some by (simp add: dom_def)
    ultimately have "w \<noteq> w0" using dedup_from_sorted_keys [OF srt sb(2)] by blast
    with Cons.prems(4) have "(w, s') \<in> set xs" by (simp add: x)
    from Cons.IH [OF srt sb(2) in_tl this] show ?thesis .
  qed
qed

lemma unique_sublist_sorted:
  assumes "sorted_wrt (\<lambda>a b. snd b \<le> snd a) xs"
  shows "sorted_wrt (\<lambda>a b. snd b \<le> snd a) (unique_sublist xs)"
    and "distinct (map fst (unique_sublist xs))"
    and "set (unique_sublist xs) \<subseteq> set xs"
    and "fst ` set (unique_sublist xs) = fst ` set xs"
    and "(w, s) \<in> set (unique_sublist xs) \<Longrightarrow> (w, s') \<in> set xs \<Longrightarrow> s' \<le> s"
proof -
  have sb: "seen_bounds Map.empty xs" by (simp add: seen_bounds_def)
  show "sorted_wrt (\<lambda>a b. snd b \<le> snd a) (unique_sublist xs)"
    unfolding unique_sublist_eq by (rule sorted_dedup_from [OF assms])
  show "distinct (map fst (unique_sublist xs))"
    unfolding unique_sublist_eq using dedup_from_sorted_keys [OF assms sb] by simp
  show "set (unique_sublist xs) \<subseteq> set xs"
    unfolding unique_sublist_eq by (rule set_dedup_from)
  show "fst ` set (unique_sublist xs) = fst ` set xs"
    unfolding unique_sublist_eq using dedup_from_sorted_keys [OF assms sb] by simp
  show "(w, s) \<in> set (unique_sublist xs) \<Longrightarrow> (w, s') \<in> set xs \<Longrightarrow> s' \<le> s"
    unfolding unique_sublist_eq by (rule dedup_from_sorted_max [OF assms sb])
qed

section \<open>The loop of \<open>predict\<close>\<close>

lemma predict_loop_Inr:
  "predict_loop U sc m st batch = Inr st' \<longleftrightarrow>
     (\<exists>outs. try_map (process_sentence U sc m) batch = Inr outs \<and> st' = foldl append_out st outs)"
proof (induction batch arbitrary: st)
  case Nil
  show ?case by auto
next
  case (Cons s ss)
  show ?case
  proof (cases "process_sentence U sc m s")
    case (Inl e)
    then show ?thesis by simp
  next
    case (Inr out)
    show ?thesis
      using Cons.IH [of "append_out st out"] Inr by (auto split: sum.splits)
  qed
qed

lemma predict_loop_append:
  "predict_loop U sc m st (xs @ ys) =
     (case predict_loop U sc m st xs of Inl e \<Rightarrow> Inl e | Inr st' \<Rightarrow> predict_loop U sc m st' ys)"
  by (induction xs arbitrary: st) (auto split: sum.splits)

lemma predict_loop_Inl:
  "(\<exists>s \<in> set batch. \<exists>e. process_sentence U sc m s = Inl e) \<Longrightarrow>
   \<exists>e. predict_loop U sc m st batch = Inl e"
proof (induction batch arbitrary: st)
  case Nil
  then show ?case by simp
next
  case (Cons s ss)
  show ?case
  proof (cases "process_sentence U sc m s")
    case (Inl e)
    then show ?thesis by simp
  next
    case (Inr out)
    with Cons.prems have "\<exists>s \<in> set ss. \<exists>e. process_sentence U sc m s = Inl e" by auto
    from Cons.IH [OF this, of "append_out st out"] Inr show ?thesis by simp
  qed
qed

lemma foldl_append_out:
  "target_list (foldl append_out st outs) = target_list st @ map result outs"
  "words_list (foldl append_out st outs) = words_list st @ map out_words outs"
  "sentiment_output (foldl append_out st outs) = sentiment_output st @ map sentiments_temp outs"
  "gold_target_list (foldl append_out st outs) =
     gold_target_list st @ concat (map (\<lambda>out. case gold out of None \<Rightarrow> [] | Some g \<Rightarrow> [g]) outs)"
  by (induction outs arbitrary: st) (auto simp: append_out_def split: option.splits)

lemma process_sentence_fields:
  assumes "process_sentence U sc m s = Inr out"
  shows "\<exists>mv. max_values (words s) (probs s) = Inr mv \<and> result out = sorted_reverse (tuple_list mv)"
    and "out_words out = words s"
    and "gold_of s = Inr (gold out)"
  using assms by (auto simp: process_sentence_def split: sum.splits if_splits)

lemma process_sentence_mismatch:
  "pred_labels_of s = Inr pl \<Longrightarrow> length (words s) \<noteq> length pl \<Longrightarrow>
   process_sentence U sc m s = Inl AssertionError"
  by (simp add: process_sentence_def)

lemma try_map_map_cong:
  "try_map f xs = Inr ys \<Longrightarrow> (\<And>x y. x \<in> set xs \<Longrightarrow> f x = Inr y \<Longrightarrow> F x = G y) \<Longrightarrow>
   map F xs = map G ys"
proof (induction xs arbitrary: ys)
  case Nil
  then show ?case by simp
next
  case (Cons x xs)
  from Cons.prems(1) obtain y ys' where fx: "f x = Inr y" and r: "try_map f xs = Inr ys'"
    and ys: "ys = y # ys'"
    by (auto split: sum.splits)
  have "map F xs = map G ys'"
    by (rule Cons.IH [OF r]) (use Cons.prems(2) in auto)
  moreover have "F x = G y" using Cons.prems(2) fx by simp
  ultimately show ?case by (simp add: ys)
qed

lemma predict_InrD:
  assumes "predict U sc batch = Inr r"
  shows "\<exists>vocab outs pr. absa_label_vocab sc = Inr vocab \<and>
      try_map (process_sentence U sc (absa_id2tag vocab)) batch = Inr outs \<and>
      try_map (pair_words (map out_words outs)) (enumerate 0 (map result outs)) = Inr pr \<and>
      unique_predictions r = map unique_sublist pr \<and>
      gold_targets r = concat (map (\<lambda>out. case gold out of None \<Rightarrow> [] | Some g \<Rightarrow> [g]) outs) \<and>
      aspects r = map sentiments_temp outs"
proof -
  from assms obtain vocab st u where v: "absa_label_vocab sc = Inr vocab"
    and l: "predict_loop U sc (absa_id2tag vocab) init_state batch = Inr st"
    and g: "get_unique_prediction_results (words_list st) (target_list st) = Inr u"
    and r: "r = \<lparr>unique_predictions = u, gold_targets = gold_target_list st,
                 aspects = sentiment_output st\<rparr>"
    by (auto simp: predict_def split: sum.splits)
  from l obtain outs where o: "try_map (process_sentence U sc (absa_id2tag vocab)) batch = Inr outs"
    and st: "st = foldl append_out init_state outs"
    unfolding predict_loop_Inr by blast
  have w: "words_list st = map out_words outs" and t: "target_list st = map result outs"
    and so: "sentiment_output st = map sentiments_temp outs"
    and gt: "gold_target_list st =
          concat (map (\<lambda>out. case gold out of None \<Rightarrow> [] | Some g \<Rightarrow> [g]) outs)"
    unfolding st foldl_append_out by (simp_all add: init_state_def)
  from g obtain pr where pr: "predictions_result (words_list st) (target_list st) = Inr pr"
    and u: "u = map unique_sublist pr"
    by (auto simp: get_unique_prediction_results_def split: sum.splits)
  from pr have "try_map (pair_words (map out_words outs)) (enumerate 0 (map result outs)) = Inr pr"
    by (simp add: predictions_result_def w t)
  with v o u r so gt show ?thesis by simp
qed

lemma pair_words_Inr:
  assumes "pair_words wl (i, xs) = Inr ys"
  shows "ys = map (\<lambda>(j, score). (wl ! i ! j, score)) xs"
proof -
  from assms have "try_map (\<lambda>(j, score).
        case list_get wl i of
          Inl e \<Rightarrow> Inl e
        | Inr ws \<Rightarrow> (case list_get ws j of Inl e \<Rightarrow> Inl e | Inr w \<Rightarrow> Inr (w, score))) xs = Inr ys"
    by (simp add: pair_words_def)
  then have "map (\<lambda>(j, score). (wl ! i ! j, score)) xs = map (\<lambda>y. y) ys"
    by (rule try_map_map_cong) (auto simp: list_get_def split: sum.splits if_splits)
  then show ?thesis by simp
qed

lemma predict_Inr_outputs:
  assumes "predict U sc batch = Inr r"
  shows "\<exists>vocab outs. absa_label_vocab sc = Inr vocab \<and>
      try_map (process_sentence U sc (absa_id2tag vocab)) batch = Inr outs \<and>
      aspects r = map sentiments_temp outs \<and>
      gold_targets r = concat (map (\<lambda>out. case gold out of None \<Rightarrow> [] | Some g \<Rightarrow> [g]) outs) \<and>
      unique_predictions r =
        map (\<lambda>out. unique_sublist (map (\<lambda>(j, score). (out_words out ! j, score)) (result out)))
          outs"
proof -
  from predict_InrD [OF assms] obtain vocab outs pr where
    v: "absa_label_vocab sc = Inr vocab"
    and o: "try_map (process_sentence U sc (absa_id2tag vocab)) batch = Inr outs"
    and p: "try_map (pair_words (map out_words outs)) (enumerate 0 (map result outs)) = Inr pr"
    and u: "unique_predictions r = map unique_sublist pr"
    and g: "gold_targets r = concat (map (\<lambda>out. case gold out of None \<Rightarrow> [] | Some g \<Rightarrow> [g]) outs)"
    and a: "aspects r = map sentiments_temp outs"
    by blast
  have lp: "length pr = length outs" using try_map_Inr_length [OF p] by simp
  have pr_nth: "pr ! i = map (\<lambda>(j, score). (out_words (outs ! i) ! j, score)) (result (outs ! i))"
    if "i < length outs" for i
  proof -
    from that have "pair_words (map out_words outs) (enumerate 0 (map result outs) ! i) = Inr (pr ! i)"
      by (intro try_map_Inr_nth [OF p]) simp
    with that have "pair_words (map out_words outs) (i, result (outs ! i)) = Inr (pr ! i)"
      by (simp add: nth_enumerate_eq)
    from pair_words_Inr [OF this] that show ?thesis by simp
  qed
  have pr_eq: "pr = map (\<lambda>out. map (\<lambda>(j, score). (out_words out ! j, score)) (result out)) outs"
    by (rule nth_equalityI) (simp_all add: lp pr_nth)
  show ?thesis using v o a g u pr_eq by (simp add: o_def)
qed

lemma example_predict:
  "predict example_utils ''BIEOS''
     [example_sentence, example_sentence\<lparr>labels := Some [[0, 0, 1, 0]]\<rparr>] =
     Inr \<lparr>unique_predictions = [[(''good'', 9 / 10), (''food'', 4 / 10)],
                                 [(''good'', 9 / 10), (''food'', 4 / 10)]],
          gold_targets = [[''food''], []],
          aspects = [[\<lparr>aspect = ''good'', indices = (0, 1), sentiment = ''POS''\<rparr>],
                     [\<lparr>aspect = ''good'', indices = (0, 1), sentiment = ''POS''\<rparr>]]\<rparr>"
  by (simp add: embedding_defs)

lemma concat_option_singletons:
  "(\<And>x. x \<in> set xs \<Longrightarrow> \<exists>g. f x = Some g) \<Longrightarrow>
   concat (map (\<lambda>x. case f x of None \<Rightarrow> [] | Some g \<Rightarrow> [g]) xs) = map (\<lambda>x. the (f x)) xs"
proof (induction xs)
  case Nil
  show ?case by simp
next
  case (Cons x xs)
  from Cons.prems [of x] obtain g where g: "f x = Some g" by auto
  have "concat (map (\<lambda>x. case f x of None \<Rightarrow> [] | Some g \<Rightarrow> [g]) xs) = map (\<lambda>x. the (f x)) xs"
    by (rule Cons.IH) (use Cons.prems in auto)
  with g show ?case by simp
qed

lemma gold_of_labelled:
  assumes "gold_of s = Inr g" "labels s = Some ls"
  shows "\<exists>row rest. ls = row # rest \<and> g = Some (gold_labels_per_seq (words s) row)"
  using assms by (cases ls) (auto simp: gold_of_def first_row_def)

lemma gold_labels_per_seq_no_sentiment:
  assumes "\<forall>a \<in> set row. a \<le> 1"
  shows "gold_labels_per_seq ws row = []"
proof -
  have le: "row ! i \<le> 1" if "i < length row" for i
    using assms that by simp
  have "filter (\<lambda>(i, a). a > 1 \<and> 0 < i \<and> i < length ws) (enumerate 0 row) = []"
    using le by (fastforce simp: filter_empty_conv in_set_enumerate_eq)
  then show ?thesis by (simp add: gold_labels_per_seq_def fold_gold_step)
qed

text \<open>
  Claim C3.  Line 211 sets \<open>inputs['labels']\<close> to \<open>batch[3]\<close>, a tensor of the dataset of
  line 103, so every sentence that \<open>predict\<close> processes has a label row and the guard of
  line 264 holds.  On such a batch, when \<open>predict\<close> returns, \<open>unique_predictions\<close>,
  \<open>aspects\<close> and \<open>gold_targets\<close> have exactly one entry per sentence, in input order:
  entry \<open>i\<close> of each is computed from sentence \<open>i\<close>, and entry \<open>i\<close> of \<open>gold_targets\<close> is
  the list of gold words of the label row of sentence \<open>i\<close>.  A sentence without gold
  annotation (a label row with no id above 1, as unseen data has) contributes the empty
  list as its entry; no entry is missing.
\<close>

theorem result_alignment:
  assumes "predict U sc batch = Inr r" and "\<forall>s \<in> set batch. labels s \<noteq> None"
  shows "length (unique_predictions r) = length batch \<and>
         length (aspects r) = length batch \<and>
         length (gold_targets r) = length batch \<and>
         (\<exists>vocab outs. absa_label_vocab sc = Inr vocab \<and>
            try_map (process_sentence U sc (absa_id2tag vocab)) batch = Inr outs \<and>
            aspects r = map sentiments_temp outs \<and>
            unique_predictions r =
              map (\<lambda>out. unique_sublist (map (\<lambda>(j, score). (out_words out ! j, score)) (result out)))
                outs) \<and>
         (\<forall>i < length batch. \<exists>row rest.
            labels (batch ! i) = Some (row # rest) \<and>
            gold_targets r ! i = gold_labels_per_seq (words (batch ! i)) row \<and>
            ((\<forall>a \<in> set row. a \<le> 1) \<longrightarrow> gold_targets r ! i = []))"
proof -
  from predict_Inr_outputs [OF assms(1)] obtain vocab outs where
    v: "absa_label_vocab sc = Inr vocab"
    and o: "try_map (process_sentence U sc (absa_id2tag vocab)) batch = Inr outs"
    and a: "aspects r = map sentiments_temp outs"
    and g: "gold_targets r = concat (map (\<lambda>out. case gold out of None \<Rightarrow> [] | Some g \<Rightarrow> [g]) outs)"
    and u: "unique_predictions r =
              map (\<lambda>out. unique_sublist (map (\<lambda>(j, score). (out_words out ! j, score)) (result out)))
                outs"
    by blast
  have lo: "length outs = length batch" by (rule try_map_Inr_length [OF o])
  have row: "\<exists>row rest. labels (batch ! i) = Some (row # rest) \<and>
               gold (outs ! i) = Some (gold_labels_per_seq (words (batch ! i)) row)"
    if i: "i < length batch" for i
  proof -
    have "process_sentence U sc (absa_id2tag vocab) (batch ! i) = Inr (outs ! i)"
      by (rule try_map_Inr_nth [OF o i])
    then have gs: "gold_of (batch ! i) = Inr (gold (outs ! i))" by (rule process_sentence_fields(3))
    from i assms(2) obtain ls where ls: "labels (batch ! i) = Some ls" by fastforce
    from gold_of_labelled [OF gs ls] ls show ?thesis by blast
  qed
  have some: "\<exists>g. gold out = Some g" if "out \<in> set outs" for out
  proof -
    from that obtain i where "i < length outs" "out = outs ! i" by (auto simp: in_set_conv_nth)
    with row [of i] lo show ?thesis by auto
  qed
  have gt: "gold_targets r = map (\<lambda>out. the (gold out)) outs"
    unfolding g by (rule concat_option_singletons) (rule some)
  have entry: "\<exists>row rest. labels (batch ! i) = Some (row # rest) \<and>
            gold_targets r ! i = gold_labels_per_seq (words (batch ! i)) row \<and>
            ((\<forall>a \<in> set row. a \<le> 1) \<longrightarrow> gold_targets r ! i = [])"
    if i: "i < length batch" for i
  proof -
    from row [OF i] obtain row rest where l: "labels (batch ! i) = Some (row # rest)"
      and go: "gold (outs ! i) = Some (gold_labels_per_seq (words (batch ! i)) row)" by blast
    from i lo go have "gold_targets r ! i = gold_labels_per_seq (words (batch ! i)) row"
      by (simp add: gt)
    with l gold_labels_per_seq_no_sentiment [of row "words (batch ! i)"] show ?thesis by auto
  qed
  have "length (gold_targets r) = length batch" by (simp add: gt lo)
  with v o a u lo entry show ?thesis by auto
qed

theorem result_alignment_witness:
  "predict example_utils ''BIEOS''
     [example_sentence, example_sentence\<lparr>labels := Some [[0, 0, 1, 0]]\<rparr>] =
     Inr \<lparr>unique_predictions = [[(''good'', 9 / 10), (''food'', 4 / 10)],
                                 [(''good'', 9 / 10), (''food'', 4 / 10)]],
          gold_targets = [[''food''], []],
          aspects = [[\<lparr>aspect = ''good'', indices = (0, 1), sentiment = ''POS''\<rparr>],
                     [\<lparr>aspect = ''good'', indices = (0, 1), sentiment = ''POS''\<rparr>]]\<rparr> \<and>
   labels example_sentence \<noteq> None \<and>
   labels (example_sentence\<lparr>labels := Some [[0, 0, 1, 0]]\<rparr>) \<noteq> None \<and>
   length [[''food''], [] :: string list] =
     length [example_sentence, example_sentence\<lparr>labels := Some [[0, 0, 1, 0]]\<rparr>]"
proof -
  have l: "\<forall>s \<in> set [example_sentence, example_sentence\<lparr>labels := Some [[0, 0, 1, 0]]\<rparr>].
             labels s \<noteq> None"
    by (simp add: example_sentence_def)
  from result_alignment [OF example_predict l] example_predict l show ?thesis by simp
qed

text \<open>
  Claim C4, as the code has it.  The assertion of line 228 is not caught anywhere in
  \<open>predict\<close>: when the token count and the number of predicted labels of one sentence
  differ, \<open>predict\<close> returns no result at all, whatever the other sentences are, and the
  exception is \<open>AssertionError\<close> when every earlier sentence was processed without one.
\<close>

theorem length_mismatch_aborts_predict:
  assumes "pred_labels_of s = Inr pl" "length (words s) \<noteq> length pl"
  shows "(s \<in> set batch \<longrightarrow> (\<exists>e. predict U sc batch = Inl e)) \<and>
         (absa_label_vocab sc = Inr vocab \<and>
          try_map (process_sentence U sc (absa_id2tag vocab)) pre = Inr outs \<longrightarrow>
            predict U sc (pre @ s # post) = Inl AssertionError)"
proof (intro conjI impI)
  assume s: "s \<in> set batch"
  show "\<exists>e. predict U sc batch = Inl e"
  proof (cases "absa_label_vocab sc")
    case (Inl e)
    then show ?thesis by (simp add: predict_def)
  next
    case (Inr vocab')
    have "\<exists>s \<in> set batch. \<exists>e. process_sentence U sc (absa_id2tag vocab') s = Inl e"
      using s process_sentence_mismatch [OF assms] by blast
    from predict_loop_Inl [OF this] obtain e where
      "predict_loop U sc (absa_id2tag vocab') init_state batch = Inl e" by blast
    with Inr show ?thesis by (simp add: predict_def)
  qed
next
  assume h: "absa_label_vocab sc = Inr vocab \<and>
          try_map (process_sentence U sc (absa_id2tag vocab)) pre = Inr outs"
  then have "predict_loop U sc (absa_id2tag vocab) init_state pre =
               Inr (foldl append_out init_state outs)"
    by (simp add: predict_loop_Inr)
  then have "predict_loop U sc (absa_id2tag vocab) init_state (pre @ s # post) = Inl AssertionError"
    by (simp add: predict_loop_append process_sentence_mismatch [OF assms])
  with h show "predict U sc (pre @ s # post) = Inl AssertionError"
    by (simp add: predict_def)
qed

theorem length_mismatch_aborts_predict_witness:
  "predict example_utils ''BIEOS''
     [example_sentence, example_sentence\<lparr>label_indices := [1, 2]\<rparr>, example_sentence] =
     Inl AssertionError"
proof -
  have p: "pred_labels_of (example_sentence\<lparr>label_indices := [1, 2]\<rparr>) = Inr [2, 4]"
    by (simp add: embedding_defs)
  have l: "length (words (example_sentence\<lparr>label_indices := [1, 2]\<rparr>)) \<noteq> length [2 :: int, 4]"
    by (simp add: embedding_defs)
  have v: "absa_label_vocab ''BIEOS'' = Inr [(''O'', 0), (''EQ'', 1), (''B-POS'', 2), (''I-POS'', 3), (''E-POS'', 4),
             (''S-POS'', 5), (''B-NEG'', 6), (''I-NEG'', 7), (''E-NEG'', 8), (''S-NEG'', 9),
             (''B-NEU'', 10), (''I-NEU'', 11), (''E-NEU'', 12), (''S-NEU'', 13)]"
    by (simp add: absa_label_vocab_def)
  obtain outs where o: "try_map (process_sentence example_utils ''BIEOS''
       (absa_id2tag [(''O'', 0), (''EQ'', 1), (''B-POS'', 2), (''I-POS'', 3), (''E-POS'', 4),
             (''S-POS'', 5), (''B-NEG'', 6), (''I-NEG'', 7), (''E-NEG'', 8), (''S-NEG'', 9),
             (''B-NEU'', 10), (''I-NEU'', 11), (''E-NEU'', 12), (''S-NEU'', 13)])) [example_sentence] = Inr outs"
    by (simp add: embedding_defs)
  from length_mismatch_aborts_predict [OF p l, of _ example_utils "''BIEOS''" _ "[example_sentence]" outs "[example_sentence]"] v o
  show ?thesis by simp
qed

text \<open>
  The claim as stated fails: with a sentence of four words and two predicted labels first
  in the batch, the second sentence, which alone is processed without error, does not
  appear in any result.
\<close>

theorem mismatch_aborts_batch:
  "predict example_utils ''BIEOS'' [example_sentence\<lparr>label_indices := [1, 2]\<rparr>, example_sentence] =
     Inl AssertionError \<and>
   predict example_utils ''BIEOS'' [example_sentence] =
     Inr \<lparr>unique_predictions = [[(''good'', 9 / 10), (''food'', 4 / 10)]],
          gold_targets = [[''food'']],
          aspects = [[\<lparr>aspect = ''good'', indices = (0, 1), sentiment = ''POS''\<rparr>]]\<rparr>"
  by (simp add: embedding_defs)

section \<open>The candidate ranker\<close>


lemma insort_key_map:
  "insort_key f (g x) (map g ys) = map g (insort_key (\<lambda>y. f (g y)) x ys)"
  by (induction ys) auto

lemma sort_key_map: "sort_key f (map g xs) = map g (sort_key (\<lambda>y. f (g y)) xs)"
  by (induction xs) (simp_all add: insort_key_map)

lemma pair_sorted_reverse:
  "map (\<lambda>(j, score). (ws ! j, score)) (sorted_reverse ts) =
     sort_key (\<lambda>c. - snd c) (map (\<lambda>(j, score). (ws ! j, score)) ts)"
  by (simp add: sorted_reverse_def sort_key_map case_prod_unfold)

lemma tuple_list_as_map: "tuple_list mv = map (\<lambda>k. (k, mv ! k)) [0..<length mv]"
  by (simp add: tuple_list_def enumerate_as_map)

lemma sorted_desc_sort_key:
  "sorted_wrt (\<lambda>a b. snd b \<le> snd a) (sort_key (\<lambda>c. - snd c) (xs :: ('a \<times> real) list))"
proof -
  have "sorted (map (\<lambda>c. - snd c) (sort_key (\<lambda>c. - snd c) xs))" by (rule sorted_sort_key)
  then show ?thesis by (simp add: sorted_wrt_map)
qed




text \<open>
  Claim C1.  For sentence \<open>i\<close> of a batch on which \<open>predict\<close> returns, the entry \<open>i\<close> of
  \<open>unique_predictions\<close> is ordered by score descending, has pairwise different words,
  consists of candidates of the sentence, has every word of a candidate, and gives each
  word the greatest score among the candidates with that word.  For the scores
  \<open>good 0.9, food 0.4, good 0.7\<close> the output is \<open>good 0.9, food 0.4\<close>.
\<close>

theorem ranked_candidates_sorted_unique:
  "(predict U sc batch = Inr r \<and> i < length batch \<longrightarrow>
      (\<exists>mv. max_values (words (batch ! i)) (probs (batch ! i)) = Inr mv \<and>
         sorted_wrt (\<ge>) (map snd (unique_predictions r ! i)) \<and>
         distinct (map fst (unique_predictions r ! i)) \<and>
         set (unique_predictions r ! i) \<subseteq>
           set (map (\<lambda>k. (words (batch ! i) ! k, mv ! k)) [0..<length mv]) \<and>
         fst ` set (unique_predictions r ! i) =
           fst ` set (map (\<lambda>k. (words (batch ! i) ! k, mv ! k)) [0..<length mv]) \<and>
         (\<forall>w s s'. (w, s) \<in> set (unique_predictions r ! i) \<and>
            (w, s') \<in> set (map (\<lambda>k. (words (batch ! i) ! k, mv ! k)) [0..<length mv]) \<longrightarrow>
            s' \<le> s))) \<and>
   get_unique_prediction_results [[''good'', ''food'', ''good'']]
     [sorted_reverse [(0, 9 / 10), (1, 4 / 10), (2, 7 / 10)]] =
     Inr [[(''good'', 9 / 10), (''food'', 4 / 10)]]"
proof (intro conjI impI)
  assume h: "predict U sc batch = Inr r \<and> i < length batch"
  then have i: "i < length batch" by simp
  from h predict_Inr_outputs [of U sc batch r] obtain vocab outs where
    o: "try_map (process_sentence U sc (absa_id2tag vocab)) batch = Inr outs"
    and u: "unique_predictions r =
              map (\<lambda>out. unique_sublist (map (\<lambda>(j, score). (out_words out ! j, score)) (result out)))
                outs"
    by blast
  have lo: "length outs = length batch" by (rule try_map_Inr_length [OF o])
  have ps: "process_sentence U sc (absa_id2tag vocab) (batch ! i) = Inr (outs ! i)"
    by (rule try_map_Inr_nth [OF o i])
  from process_sentence_fields(1) [OF ps] obtain mv where
    mv: "max_values (words (batch ! i)) (probs (batch ! i)) = Inr mv"
    and res: "result (outs ! i) = sorted_reverse (tuple_list mv)" by blast
  have ow: "out_words (outs ! i) = words (batch ! i)" by (rule process_sentence_fields(2) [OF ps])
  define ws where "ws = words (batch ! i)"
  define cands where "cands = map (\<lambda>k. (ws ! k, mv ! k)) [0..<length mv]"
  define ys where "ys = sort_key (\<lambda>c. - snd c) cands"
  have c: "map (\<lambda>(j, score). (ws ! j, score)) (tuple_list mv) = cands"
    by (simp add: tuple_list_as_map o_def cands_def)
  have out: "unique_predictions r ! i = unique_sublist ys"
    using i lo by (simp add: u res ow pair_sorted_reverse c ys_def ws_def [symmetric])
  have srt: "sorted_wrt (\<lambda>a b. snd b \<le> snd a) ys" unfolding ys_def by (rule sorted_desc_sort_key)
  have sy: "set ys = set cands" by (simp add: ys_def)
  note us = unique_sublist_sorted [OF srt]
  have "sorted_wrt (\<ge>) (map snd (unique_sublist ys))"
    using us(1) by (simp add: sorted_wrt_map)
  moreover have "\<forall>w s s'. (w, s) \<in> set (unique_sublist ys) \<and> (w, s') \<in> set cands \<longrightarrow> s' \<le> s"
    using us(5) sy by blast
  ultimately show "\<exists>mv. max_values (words (batch ! i)) (probs (batch ! i)) = Inr mv \<and>
         sorted_wrt (\<ge>) (map snd (unique_predictions r ! i)) \<and>
         distinct (map fst (unique_predictions r ! i)) \<and>
         set (unique_predictions r ! i) \<subseteq>
           set (map (\<lambda>k. (words (batch ! i) ! k, mv ! k)) [0..<length mv]) \<and>
         fst ` set (unique_predictions r ! i) =
           fst ` set (map (\<lambda>k. (words (batch ! i) ! k, mv ! k)) [0..<length mv]) \<and>
         (\<forall>w s s'. (w, s) \<in> set (unique_predictions r ! i) \<and>
            (w, s') \<in> set (map (\<lambda>k. (words (batch ! i) ! k, mv ! k)) [0..<length mv]) \<longrightarrow>
            s' \<le> s)"
    using mv us(2,3,4) unfolding out sy cands_def ws_def by blast
next
  show "get_unique_prediction_results [[''good'', ''food'', ''good'']]
     [sorted_reverse [(0, 9 / 10), (1, 4 / 10), (2, 7 / 10)]] =
     Inr [[(''good'', 9 / 10), (''food'', 4 / 10)]]"
    by (simp add: embedding_defs)
qed

theorem ranked_candidates_sorted_unique_witness:
  "predict example_utils ''BIEOS''
     [example_sentence, example_sentence\<lparr>labels := Some [[0, 0, 1, 0]]\<rparr>] =
     Inr \<lparr>unique_predictions = [[(''good'', 9 / 10), (''food'', 4 / 10)],
                                 [(''good'', 9 / 10), (''food'', 4 / 10)]],
          gold_targets = [[''food''], []],
          aspects = [[\<lparr>aspect = ''good'', indices = (0, 1), sentiment = ''POS''\<rparr>],
                     [\<lparr>aspect = ''good'', indices = (0, 1), sentiment = ''POS''\<rparr>]]\<rparr> \<and>
   distinct (map fst [(''good'', 9 / 10 :: real), (''food'', 4 / 10)]) \<and>
   sorted_wrt (\<ge>) (map snd [(''good'', 9 / 10 :: real), (''food'', 4 / 10)])"
  using ranked_candidates_sorted_unique [of example_utils "''BIEOS''"
      "[example_sentence, example_sentence\<lparr>labels := Some [[0, 0, 1, 0]]\<rparr>]" _ 0] example_predict
  by (simp add: sorted_wrt2_simps del: sorted_wrt.simps)

end
